theory Spec2Isabelle
  imports Complex_Main "HOL-Library.Word"
begin

unbundle bit_operations_syntax

section \<open>Arrays and failures\<close>

text \<open>
  The kernels of \<^verbatim>\<open>ivf_common.cuh\<close> index raw device pointers with 32-bit unsigned
  integers. An array is a list here; a read or a write outside of it is undefined behaviour
  in the source and the value \<open>Inl OutOfBounds\<close> in the model. A loop that does not come
  back is the value \<open>None\<close>.
\<close>

type_synonym u32 = "32 word"
type_synonym u64 = "64 word"

datatype error = OutOfBounds | DivisionByZero | LogicError string

definition array_read :: "'a list \<Rightarrow> nat \<Rightarrow> error + 'a" where
  "array_read xs i = (if i < length xs then Inr (xs ! i) else Inl OutOfBounds)"

definition array_write :: "'a list \<Rightarrow> nat \<Rightarrow> 'a \<Rightarrow> error + 'a list" where
  "array_write xs i v = (if i < length xs then Inr (xs[i := v]) else Inl OutOfBounds)"

section \<open>Chunk Locator: \<^verbatim>\<open>find_chunk_ix\<close>\<close>

text \<open>
  The body of the \<^verbatim>\<open>do { ... } while (ix_min < ix_max)\<close> loop, entered with the current
  bounds. All of \<open>ix_min\<close>, \<open>ix_max\<close> and \<open>i\<close> are \<^verbatim>\<open>uint32_t\<close>: the midpoint
  \<open>(ix_min + ix_max) / 2\<close> is computed after the sum has wrapped.
\<close>

partial_function (option) find_chunk_loop ::
  "u32 \<Rightarrow> u32 list \<Rightarrow> u32 \<Rightarrow> u32 \<Rightarrow> (error + u32) option" where
  "find_chunk_loop sample_ix chunk_indices ix_min ix_max =
     (let i = (ix_min + ix_max) div 2 in
      case array_read chunk_indices (unat i) of
        Inl e \<Rightarrow> Some (Inl e)
      | Inr v \<Rightarrow>
          (let ix_min' = (if v \<le> sample_ix then i + 1 else ix_min);
               ix_max' = (if v \<le> sample_ix then ix_max else i)
           in if ix_min' < ix_max'
              then find_chunk_loop sample_ix chunk_indices ix_min' ix_max'
              else Some (Inr ix_min')))"

declare find_chunk_loop.simps [code]

text \<open>
  \<^verbatim>\<open>find_chunk_ix(sample_ix, n_probes, chunk_indices)\<close>: the returned pair is the chunk
  index and the rewritten \<open>sample_ix\<close> (an in-out reference in the source).
\<close>

definition find_chunk_ix :: "u32 \<Rightarrow> u32 \<Rightarrow> u32 list \<Rightarrow> (error + u32 \<times> u32) option" where
  "find_chunk_ix sample_ix n_probes chunk_indices =
     (case find_chunk_loop sample_ix chunk_indices 0 n_probes of
        None \<Rightarrow> None
      | Some (Inl e) \<Rightarrow> Some (Inl e)
      | Some (Inr ix_min) \<Rightarrow>
          (if ix_min > 0
           then (case array_read chunk_indices (unat (ix_min - 1)) of
                   Inl e \<Rightarrow> Some (Inl e)
                 | Inr v \<Rightarrow> Some (Inr (ix_min, sample_ix - v)))
           else Some (Inr (ix_min, sample_ix))))"


text \<open>
  What the table is meant to hold: the inclusive prefix sums of the sizes of the probed
  partitions, as natural numbers (a reference definition, in the words of the
  specification; the kernel that fills the table follows).
\<close>

fun prefix_sums :: "nat \<Rightarrow> nat list \<Rightarrow> nat list" where
  "prefix_sums acc [] = []"
| "prefix_sums acc (x # xs) = (acc + x) # prefix_sums (acc + x) xs"

definition holds_prefix_sums :: "u32 list \<Rightarrow> nat list \<Rightarrow> bool" where
  "holds_prefix_sums chunk_table sizes \<longleftrightarrow> map unat chunk_table = prefix_sums 0 sizes"

section \<open>Chunk Index Builder: \<^verbatim>\<open>calc_chunk_indices_kernel\<close>\<close>












section \<open>Result Resolver: \<^verbatim>\<open>postprocess_neighbors_kernel\<close>\<close>

text \<open>
  \<^verbatim>\<open>kOutOfBoundsRecord<IdxT> = std::numeric_limits<IdxT>::max()\<close>. The identifier type
  \<open>IdxT\<close> is a template parameter: a word of some width, read as signed or as unsigned.
\<close>

definition numeric_limits_max :: "bool \<Rightarrow> 'a::len word" where
  "numeric_limits_max is_signed = (if is_signed then mask (LENGTH('a) - 1) else - 1)"

definition kOutOfBoundsRecord :: "bool \<Rightarrow> 'a::len word" where
  "kOutOfBoundsRecord is_signed = numeric_limits_max is_signed"

text \<open>
  One thread of the kernel, with \<open>IdxT2 = uint32_t\<close>: the new contents of
  \<^verbatim>\<open>neighbors_out\<close>. The flat index \<open>i\<close> is 64 bits wide, \<open>query_ix\<close> and \<open>k\<close> are
  its quotient and remainder cut to 32 bits, and the rows are found with 32-bit products.
  A launch with \<open>topk = 0\<close> has no thread; a thread that ran would divide by zero.
\<close>

definition postprocess_neighbors_kernel ::
  "bool \<Rightarrow> u32 \<Rightarrow> 'a::len word list \<Rightarrow> u32 list \<Rightarrow> 'a word list list \<Rightarrow> u32 list \<Rightarrow> u32 list
     \<Rightarrow> u32 \<Rightarrow> u32 \<Rightarrow> u32 \<Rightarrow> u32 \<Rightarrow> u32 \<Rightarrow> (error + 'a word list) option" where
  "postprocess_neighbors_kernel is_signed BlockDim neighbors_out neighbors_in db_indices
       clusters_to_probe chunk_indices n_queries n_probes topk threadIdx blockIdx =
     (let i = (ucast threadIdx + ucast BlockDim * ucast blockIdx :: u64) in
      if topk = 0 then Some (Inl DivisionByZero)
      else
        let query_ix = (ucast (i div ucast topk) :: u32) in
        if query_ix \<ge> n_queries then Some (Inr neighbors_out)
        else
          let k = (ucast (i mod ucast topk) :: u32);
              slot = unat (query_ix * topk) + unat k;
              row = unat (query_ix * n_probes)
          in case array_read neighbors_in slot of
               Inl e \<Rightarrow> Some (Inl e)
             | Inr data_ix \<Rightarrow>
                 (case find_chunk_ix data_ix n_probes (drop row chunk_indices) of
                    None \<Rightarrow> None
                  | Some (Inl e) \<Rightarrow> Some (Inl e)
                  | Some (Inr (chunk_ix, data_ix')) \<Rightarrow>
                      if chunk_ix < n_probes
                      then (case array_read clusters_to_probe (row + unat chunk_ix) of
                              Inl e \<Rightarrow> Some (Inl e)
                            | Inr label \<Rightarrow>
                                (case array_read db_indices (unat label) of
                                   Inl e \<Rightarrow> Some (Inl e)
                                 | Inr ids \<Rightarrow>
                                     (case array_read ids (unat data_ix') of
                                        Inl e \<Rightarrow> Some (Inl e)
                                      | Inr global_id \<Rightarrow>
                                          Some (array_write neighbors_out slot global_id))))
                      else Some (array_write neighbors_out slot (kOutOfBoundsRecord is_signed))))"

section \<open>Distance Postprocessor: \<^verbatim>\<open>postprocess_distances\<close>\<close>

text \<open>
  Modelled from the spec: the enumeration \<^verbatim>\<open>distance::DistanceType\<close> is declared in
  raft/distance/distance_types.hpp, which is not among the sources. The five enumerators
  that \<^verbatim>\<open>postprocess_distances\<close> names are kept; any other value of the enumeration is
  \<open>OtherMetric\<close> with its numeric code.
\<close>

datatype DistanceType =
    L2Expanded | L2SqrtExpanded | L2Unexpanded | L2SqrtUnexpanded | InnerProduct
  | OtherMetric nat

text \<open>
  Modelled from the spec: the functors of raft/core/operators.hpp and
  \<^verbatim>\<open>linalg::unaryOp\<close> are not among the sources. \<open>unaryOp out in len op\<close> writes
  \<open>op (in[i])\<close> to \<open>out[i]\<close> for \<open>i < len\<close>; \<open>compose_op\<close> applies its last functor first.
\<close>

definition mul_const_op :: "'f::times \<Rightarrow> 'f \<Rightarrow> 'f" where
  "mul_const_op scalar x = x * scalar"

definition compose_op :: "('b \<Rightarrow> 'c) \<Rightarrow> ('a \<Rightarrow> 'b) \<Rightarrow> 'a \<Rightarrow> 'c" where
  "compose_op outer inner x = outer (inner x)"

definition unaryOp :: "'o list \<Rightarrow> 'i list \<Rightarrow> nat \<Rightarrow> ('i \<Rightarrow> 'o) \<Rightarrow> error + 'o list" where
  "unaryOp out inp len op =
     (if len \<le> length inp \<and> len \<le> length out
      then Inr (map op (take len inp) @ drop len out)
      else Inl OutOfBounds)"

text \<open>
  The score types are template parameters, and so are their arithmetic: \<open>cast_op\<close> is the
  conversion from \<open>ScoreInT\<close> to \<open>ScoreOutT\<close> and \<open>sqrt_op\<close> the square root of
  \<open>ScoreOutT\<close>, both taken as arguments; product and negation are those of the type
  \<open>'f\<close> that stands for \<open>ScoreOutT\<close> (the real numbers in the numeric instances below).
  \<^verbatim>\<open>RAFT_FAIL\<close> throws \<^verbatim>\<open>raft::logic_error\<close>: the result \<open>Inl (LogicError msg)\<close>, with
  no output array.
\<close>

definition postprocess_distances ::
  "('i \<Rightarrow> 'f) \<Rightarrow> ('f \<Rightarrow> 'f) \<Rightarrow> 'f::{times,uminus} list \<Rightarrow> 'i list \<Rightarrow> DistanceType \<Rightarrow> u32 \<Rightarrow> u32 \<Rightarrow> 'f
     \<Rightarrow> error + 'f list" where
  "postprocess_distances cast_op sqrt_op out inp metric n_queries topk scaling_factor =
     (let len = unat n_queries * unat topk in
      case metric of
        L2Unexpanded \<Rightarrow>
          unaryOp out inp len
            (compose_op (mul_const_op (scaling_factor * scaling_factor)) cast_op)
      | L2Expanded \<Rightarrow>
          unaryOp out inp len
            (compose_op (mul_const_op (scaling_factor * scaling_factor)) cast_op)
      | L2SqrtUnexpanded \<Rightarrow>
          unaryOp out inp len
            (compose_op (mul_const_op scaling_factor) (compose_op sqrt_op cast_op))
      | L2SqrtExpanded \<Rightarrow>
          unaryOp out inp len
            (compose_op (mul_const_op scaling_factor) (compose_op sqrt_op cast_op))
      | InnerProduct \<Rightarrow>
          unaryOp out inp len
            (compose_op (mul_const_op (- scaling_factor * scaling_factor)) cast_op)
      | OtherMetric code \<Rightarrow> Inl (LogicError ''Unexpected metric.''))"

section \<open>\<^verbatim>\<open>unravel_index\<close> of mdspan.hpp\<close>

text \<open>
  Modelled from the spec: \<^verbatim>\<open>detail::popc\<close> (raft/core/detail/mdspan_util.cuh) is not among
  the sources. It is the population count, so that for a power of two \<open>s\<close> the shift by
  \<open>popc (s - 1)\<close> is the division by \<open>s\<close> that the fast path stands for.
\<close>

definition popc :: "'a::len word \<Rightarrow> nat" where
  "popc v = length (filter (bit v) [0..<LENGTH('a)])"

datatype unravel_error = ShiftByWidth | RankZero

text \<open>
  The loop \<^verbatim>\<open>for (dim = kRank; --dim > 0;)\<close> of \<^verbatim>\<open>unravel_index_impl<I>\<close>, over the
  extents of the dimensions \<open>kRank - 1\<close> down to \<open>1\<close> in that order. \<open>I\<close> is the word type
  \<open>'a\<close>; an extent is a 64-bit value cut to \<open>I\<close>, an entry of \<open>index\<close> a \<^verbatim>\<open>size_t\<close>.
  A shift by the width of \<open>I\<close> (an extent that is 0 as a value of \<open>I\<close>) is undefined in
  the source and \<open>ShiftByWidth\<close> here.
\<close>

fun unravel_loop ::
  "'a::len word \<Rightarrow> u64 list \<Rightarrow> u64 list \<Rightarrow> unravel_error + 'a word \<times> u64 list" where
  "unravel_loop idx [] index = Inr (idx, index)"
| "unravel_loop idx (extent # extents) index =
     (let s = (ucast extent :: 'a word) in
      if s AND (s - 1) \<noteq> 0
      then (let t = idx div s in unravel_loop t extents (ucast (idx - t * s) # index))
      else if popc (s - 1) < LENGTH('a)
      then unravel_loop (drop_bit (popc (s - 1)) idx) extents (ucast (idx AND (s - 1)) # index)
      else Inl ShiftByWidth)"

definition unravel_index_impl :: "'a::len word \<Rightarrow> u64 list \<Rightarrow> unravel_error + u64 list" where
  "unravel_index_impl idx shape =
     (case shape of
        [] \<Rightarrow> Inl RankZero
      | extent0 # extents \<Rightarrow>
          (case unravel_loop idx (rev extents) [] of
             Inl e \<Rightarrow> Inl e
           | Inr (idx', index) \<Rightarrow> Inr (ucast idx' # index)))"

text \<open>
  \<^verbatim>\<open>unravel_index(idx, shape, layout)\<close> for the row-major layout, the only one it compiles
  for. \<open>Idx\<close> is the word type \<open>'i\<close>, signed or unsigned; the conversions to
  \<^verbatim>\<open>uint64_t\<close> and \<^verbatim>\<open>uint32_t\<close> extend the sign of a signed \<open>Idx\<close>.
\<close>

definition unravel_index :: "bool \<Rightarrow> 'i::len word \<Rightarrow> u64 list \<Rightarrow> unravel_error + u64 list" where
  "unravel_index is_signed idx shape =
     (let kIs64 = (LENGTH('i) = 64);
          idx64 = (if is_signed then scast idx else ucast idx :: u64)
      in if kIs64 \<and> idx64 > 0xFFFFFFFF
         then unravel_index_impl idx64 shape
         else unravel_index_impl (if is_signed then scast idx else ucast idx :: u32) shape)"

text \<open>
  The reference for the coordinates: the row-major offset of a coordinate tuple, over the
  natural numbers.
\<close>

fun ravel :: "nat list \<Rightarrow> nat list \<Rightarrow> nat" where
  "ravel [] [] = 0"
| "ravel (c # cs) (e # es) = c * prod_list es + ravel cs es"
| "ravel _ _ = 0"

text \<open>The general division path alone, for comparison with the mask-and-shift path.\<close>

fun unravel_div :: "'a::len word \<Rightarrow> u64 list \<Rightarrow> u64 list \<Rightarrow> 'a word \<times> u64 list" where
  "unravel_div idx [] index = (idx, index)"
| "unravel_div idx (extent # extents) index =
     (let s = (ucast extent :: 'a word); t = idx div s
      in unravel_div t extents (ucast (idx - t * s) # index))"

section \<open>Radius-Query Scanner: \<^verbatim>\<open>rbc_eps_pass\<close>\<close>

text \<open>
  Modelled from the spec: \<^verbatim>\<open>rbc_eps_pass\<close> is defined in
  raft/spatial/knn/detail/ball_cover/registers-inl.cuh, which is not among the sources
  (registers.cu only instantiates it). After section 4.4 of the specification: a single
  pass over the probe list in order; in each probed partition every member is compared,
  in the order of the partition; a member is a neighbour if and only if its distance to
  the query is at most \<open>eps\<close>. The sparse output is the list of neighbours in the order met
  and their number (the degree); the dense output is the adjacency row over the dataset
  rows \<open>0..<n_rows\<close>.
\<close>

definition rbc_eps_pass_sparse ::
  "('p \<Rightarrow> nat list) \<Rightarrow> ('q \<Rightarrow> nat \<Rightarrow> 'd::linorder) \<Rightarrow> 'p list \<Rightarrow> 'q \<Rightarrow> 'd \<Rightarrow> nat list \<times> nat" where
  "rbc_eps_pass_sparse members dfunc probe_list query eps =
     (let ja = concat (map (\<lambda>p. filter (\<lambda>x. dfunc query x \<le> eps) (members p)) probe_list)
      in (ja, length ja))"

definition rbc_eps_pass_dense ::
  "('p \<Rightarrow> nat list) \<Rightarrow> ('q \<Rightarrow> nat \<Rightarrow> 'd::linorder) \<Rightarrow> 'p list \<Rightarrow> 'q \<Rightarrow> 'd \<Rightarrow> nat \<Rightarrow> bool list" where
  "rbc_eps_pass_dense members dfunc probe_list query eps n_rows =
     fold (\<lambda>p adj. fold (\<lambda>x adj. if dfunc query x \<le> eps \<and> x < length adj
                                  then adj[x := True] else adj)
                        (members p) adj)
          probe_list (replicate n_rows False)"


section \<open>The binary search of the Chunk Locator\<close>

subsection \<open>Midpoints in 32 bits\<close>

lemma midpoint:
  fixes lo hi :: u32
  assumes "lo < hi" "unat lo + unat hi < 2 ^ 32"
  shows "unat ((lo + hi) div 2) = (unat lo + unat hi) div 2"
  using assms by (simp add: unat_div unat_add_lem [THEN iffD1])

lemma suc_word:
  fixes i hi :: u32
  assumes "i < hi"
  shows "unat (i + 1) = Suc (unat i)"
proof -
  have "unat i < unat hi" using assms by (simp add: word_less_nat_alt)
  moreover have "unat hi < 2 ^ 32" using unsigned_less [of hi] by simp
  ultimately have "unat i + unat (1 :: u32) < 2 ^ LENGTH(32)" by simp
  then have "unat (i + 1) = unat i + unat (1 :: u32)" by (simp only: unat_add_lem [THEN iffD1])
  then show ?thesis by simp
qed

lemma find_chunk_loop_returns:
  fixes lo hi :: u32
  assumes "lo < hi" "unat hi \<le> length xs" "unat hi \<le> 2 ^ 31"
  shows "\<exists>c. find_chunk_loop s xs lo hi = Some (Inr c) \<and> lo \<le> c \<and> c \<le> hi
           \<and> (c = lo \<or> xs ! (unat c - 1) \<le> s) \<and> (c = hi \<or> s < xs ! unat c)"
  using assms
proof (induction "unat hi - unat lo" arbitrary: lo hi rule: less_induct)
  case less
  define i where "i = (lo + hi) div 2"
  have lohi: "unat lo < unat hi" using less.prems(1) by (simp add: word_less_nat_alt)
  have ui: "unat i = (unat lo + unat hi) div 2"
    unfolding i_def using less.prems lohi by (intro midpoint) auto
  have i_lo: "unat lo \<le> unat i" and i_hi: "unat i < unat hi" using ui lohi by auto
  have rd: "array_read xs (unat i) = Inr (xs ! unat i)"
    using i_hi less.prems(2) by (simp add: array_read_def)
  have ui1: "unat (i + 1) = Suc (unat i)"
    using i_hi by (intro suc_word [of i hi]) (simp add: word_less_nat_alt)
  show ?case
  proof (cases "xs ! unat i \<le> s")
    case True
    show ?thesis
    proof (cases "i + 1 < hi")
      case lt: True
      have "\<exists>c. find_chunk_loop s xs (i + 1) hi = Some (Inr c) \<and> i + 1 \<le> c \<and> c \<le> hi
           \<and> (c = i + 1 \<or> xs ! (unat c - 1) \<le> s) \<and> (c = hi \<or> s < xs ! unat c)"
        using lt less.prems ui1 i_lo i_hi by (intro less.hyps) auto
      then obtain c where c: "find_chunk_loop s xs (i + 1) hi = Some (Inr c)" "i + 1 \<le> c" "c \<le> hi"
         "c = i + 1 \<or> xs ! (unat c - 1) \<le> s" "c = hi \<or> s < xs ! unat c" by blast
      have "find_chunk_loop s xs lo hi = Some (Inr c)"
        by (subst find_chunk_loop.simps) (simp add: i_def [symmetric] rd True lt c(1))
      moreover have "lo \<le> c" using c(2) i_lo ui1 by (simp add: word_le_nat_alt)
      moreover have "xs ! (unat c - 1) \<le> s" using c(4) True ui1 by auto
      ultimately show ?thesis using c by blast
    next
      case ge: False
      have eq: "i + 1 = hi" using ge i_hi ui1 by (simp add: word_less_nat_alt word_unat_eq_iff)
      have "find_chunk_loop s xs lo hi = Some (Inr (i + 1))"
        by (subst find_chunk_loop.simps) (simp add: i_def [symmetric] rd True ge)
      moreover have "lo \<le> i + 1" using i_lo ui1 by (simp add: word_le_nat_alt)
      moreover have "xs ! (unat (i + 1) - 1) \<le> s" using True ui1 by simp
      ultimately show ?thesis using eq by auto
    qed
  next
    case False
    show ?thesis
    proof (cases "lo < i")
      case lt: True
      have "\<exists>c. find_chunk_loop s xs lo i = Some (Inr c) \<and> lo \<le> c \<and> c \<le> i
           \<and> (c = lo \<or> xs ! (unat c - 1) \<le> s) \<and> (c = i \<or> s < xs ! unat c)"
        using lt less.prems i_lo i_hi by (intro less.hyps) (auto simp: word_less_nat_alt)
      then obtain c where c: "find_chunk_loop s xs lo i = Some (Inr c)" "lo \<le> c" "c \<le> i"
         "c = lo \<or> xs ! (unat c - 1) \<le> s" "c = i \<or> s < xs ! unat c" by blast
      have "find_chunk_loop s xs lo hi = Some (Inr c)"
        by (subst find_chunk_loop.simps) (simp add: i_def [symmetric] rd False lt c(1))
      moreover have "c \<le> hi" using c(3) i_hi by (simp add: word_le_nat_alt)
      moreover have "s < xs ! unat c" using c(5) False by auto
      ultimately show ?thesis using c by blast
    next
      case ge: False
      have eq: "i = lo" using ge i_lo by (simp add: word_less_nat_alt word_unat_eq_iff)
      have "find_chunk_loop s xs lo hi = Some (Inr lo)"
        by (subst find_chunk_loop.simps) (simp add: i_def [symmetric] rd False ge)
      moreover have "s < xs ! unat lo" using False eq by auto
      ultimately show ?thesis using less.prems(1) by auto
    qed
  qed
qed

lemma midpoint_cases:
  fixes lo hi :: u32
  assumes "lo < hi"
  shows "(lo + hi) div 2 < lo \<or> (lo \<le> (lo + hi) div 2 \<and> (lo + hi) div 2 < hi)"
proof (cases "unat lo + unat hi < 2 ^ 32")
  case True
  have "unat lo < unat hi" using assms by (simp add: word_less_nat_alt)
  moreover have "unat ((lo + hi) div 2) = (unat lo + unat hi) div 2"
    using True by (simp add: unat_div unat_add_lem [THEN iffD1])
  ultimately have "unat lo \<le> unat ((lo + hi) div 2) \<and> unat ((lo + hi) div 2) < unat hi"
    by linarith
  then show ?thesis by (simp add: word_less_nat_alt word_le_nat_alt)
next
  case False
  have "unat hi < 2 ^ LENGTH(32)" by (rule unsigned_less)
  then have "unat hi < 2 ^ 32" by simp
  moreover have "unat (lo + hi) = (unat lo + unat hi) mod 2 ^ 32"
    by (simp add: unat_word_ariths)
  moreover have "(unat lo + unat hi) mod 2 ^ 32 = unat lo + unat hi - 2 ^ 32"
  proof -
    have "(2::nat) ^ 32 \<le> unat lo + unat hi" using False by simp
    then have "(unat lo + unat hi) mod 2 ^ 32 = (unat lo + unat hi - 2 ^ 32) mod 2 ^ 32"
      by (rule le_mod_geq)
    moreover have "unat lo < 2 ^ LENGTH(32)" "unat hi < 2 ^ LENGTH(32)"
      by (rule unsigned_less)+
    then have "unat lo + unat hi - 2 ^ 32 < (2::nat) ^ 32" by simp
    ultimately show ?thesis by simp
  qed
  ultimately have "unat (lo + hi) < unat lo" using False by simp
  moreover have "unat ((lo + hi) div 2) \<le> unat (lo + hi)" by (simp add: unat_div)
  ultimately show ?thesis by (simp add: word_less_nat_alt)
qed

lemma find_chunk_loop_le:
  assumes "find_chunk_loop s xs lo hi = Some y"
  shows "lo < hi \<longrightarrow> (\<forall>c. y = Inr c \<longrightarrow> c \<le> hi)"
proof (rule find_chunk_loop.raw_induct
    [where P = "\<lambda>s xs lo hi y. lo < hi \<longrightarrow> (\<forall>c. y = Inr c \<longrightarrow> c \<le> hi)", OF _ assms])
  fix f s xs and lo hi :: u32 and y
  assume IH: "\<And>s xs lo hi y. f s xs lo hi = Some y \<Longrightarrow> lo < hi \<longrightarrow> (\<forall>c. y = Inr c \<longrightarrow> c \<le> hi)"
    and body: "(let i = (lo + hi) div 2
      in case array_read xs (unat i) of Inl e \<Rightarrow> Some (Inl e)
         | Inr v \<Rightarrow>
             let ix_min' = if v \<le> s then i + 1 else lo;
                 ix_max' = if v \<le> s then hi else i
             in if ix_min' < ix_max' then f s xs ix_min' ix_max' else Some (Inr ix_min')) = Some y"
  show "lo < hi \<longrightarrow> (\<forall>c. y = Inr c \<longrightarrow> c \<le> hi)"
  proof (intro impI allI)
    fix c assume lt: "lo < hi" and y: "y = Inr c"
    define i where "i = (lo + hi) div 2"
    from midpoint_cases [OF lt] have mc: "i < lo \<or> (lo \<le> i \<and> i < hi)" by (simp add: i_def)
    then have i1: "i + 1 \<le> hi" using lt
      by (metis inc_le order_less_trans)
    obtain v where rd: "array_read xs (unat i) = Inr v"
      using body y by (cases "array_read xs (unat i)") (auto simp: i_def Let_def)
    show "c \<le> hi"
    proof (cases "v \<le> s")
      case True
      then show ?thesis using body IH [of s xs "i + 1" hi y] y rd i1
        by (auto simp: i_def [symmetric] Let_def split: if_splits)
    next
      case False
      then show ?thesis using body IH [of s xs lo i y] y rd mc lt
        by (auto simp: i_def [symmetric] Let_def split: if_splits)
    qed
  qed
qed

lemma find_chunk_loop_cycle:
  assumes "find_chunk_loop s xs lo hi = Some y"
  shows "\<not> (hi = 0xAAAAAAAA \<and> 1431655765 < length xs \<and> xs ! 0 \<le> s \<and> xs ! 1431655765 \<le> s
            \<and> (lo = 0 \<or> lo = 1 \<or> lo = 0x55555556))"
proof (rule find_chunk_loop.raw_induct
    [where P = "\<lambda>s xs lo hi y. \<not> (hi = 0xAAAAAAAA \<and> 1431655765 < length xs \<and> xs ! 0 \<le> s
       \<and> xs ! 1431655765 \<le> s \<and> (lo = 0 \<or> lo = 1 \<or> lo = 0x55555556))", OF _ assms])
  fix f s xs and lo hi :: u32 and y
  assume IH: "\<And>s xs lo hi y. f s xs lo hi = Some y \<Longrightarrow>
      \<not> (hi = 0xAAAAAAAA \<and> 1431655765 < length xs \<and> xs ! 0 \<le> s
       \<and> xs ! 1431655765 \<le> s \<and> (lo = 0 \<or> lo = 1 \<or> lo = 0x55555556))"
    and body: "(let i = (lo + hi) div 2
      in case array_read xs (unat i) of Inl e \<Rightarrow> Some (Inl e)
         | Inr v \<Rightarrow>
             let ix_min' = if v \<le> s then i + 1 else lo;
                 ix_max' = if v \<le> s then hi else i
             in if ix_min' < ix_max' then f s xs ix_min' ix_max' else Some (Inr ix_min')) = Some y"
  show "\<not> (hi = 0xAAAAAAAA \<and> 1431655765 < length xs \<and> xs ! 0 \<le> s
       \<and> xs ! 1431655765 \<le> s \<and> (lo = 0 \<or> lo = 1 \<or> lo = 0x55555556))"
  proof
    assume c: "hi = 0xAAAAAAAA \<and> 1431655765 < length xs \<and> xs ! 0 \<le> s \<and> xs ! 1431655765 \<le> s
            \<and> (lo = 0 \<or> lo = 1 \<or> lo = 0x55555556)"
    then have ne: "xs \<noteq> []" by auto
    from c consider "lo = 0" | "lo = 1" | "lo = 0x55555556" by blast
    then show False
    proof cases
      case 1
      then have "f s xs 0x55555556 hi = Some y"
        using c ne body by (simp add: array_read_def)
      then show ?thesis using IH c by blast
    next
      case 2
      then have "f s xs 0x55555556 hi = Some y"
        using c ne body by (simp add: array_read_def)
      then show ?thesis using IH c by blast
    next
      case 3
      then have "f s xs 1 hi = Some y"
        using c ne body by (simp add: array_read_def)
      then show ?thesis using IH c by blast
    qed
  qed
qed

lemma find_chunk_loop_diverges:
  assumes "1431655765 < length xs" "xs ! 0 \<le> s" "xs ! 1431655765 \<le> s"
  shows "find_chunk_loop s xs 0 0xAAAAAAAA = None"
proof (cases "find_chunk_loop s xs 0 0xAAAAAAAA")
  case (Some y)
  from find_chunk_loop_cycle [OF Some] assms show ?thesis by simp
qed simp


subsection \<open>Prefix sums\<close>

lemma length_prefix_sums: "length (prefix_sums acc xs) = length xs"
  by (induction xs arbitrary: acc) auto

lemma nth_prefix_sums:
  "i < length xs \<Longrightarrow> prefix_sums acc xs ! i = acc + sum_list (take (Suc i) xs)"
proof (induction xs arbitrary: acc i)
  case Nil
  then show ?case by simp
next
  case (Cons x xs)
  then show ?case by (cases i) auto
qed

lemma holds_prefix_sums_nth:
  assumes "holds_prefix_sums table sizes"
  shows "length table = length sizes"
    and "i < length sizes \<Longrightarrow> unat (table ! i) = sum_list (take (Suc i) sizes)"
proof -
  have eq: "map unat table = prefix_sums 0 sizes"
    using assms by (simp add: holds_prefix_sums_def)
  from arg_cong [OF eq, of length] show len: "length table = length sizes"
    by (simp add: length_prefix_sums)
  assume i: "i < length sizes"
  have "unat (table ! i) = map unat table ! i" using i len by simp
  also have "\<dots> = sum_list (take (Suc i) sizes)"
    using i by (simp add: eq nth_prefix_sums)
  finally show "unat (table ! i) = sum_list (take (Suc i) sizes)" .
qed

lemma sum_list_take_mono:
  fixes xs :: "nat list"
  shows "i \<le> j \<Longrightarrow> sum_list (take i xs) \<le> sum_list (take j xs)"
proof -
  assume "i \<le> j"
  then have "take j xs = take i xs @ take (j - i) (drop i xs)"
    by (metis le_add_diff_inverse take_add)
  then show ?thesis by simp
qed

lemma holds_prefix_sums_mono:
  assumes "holds_prefix_sums table sizes" "i \<le> j" "j < length sizes"
  shows "table ! i \<le> table ! j"
  using assms holds_prefix_sums_nth(2) [OF assms(1)] sum_list_take_mono [of "Suc i" "Suc j" sizes]
  by (simp add: word_le_nat_alt)

lemma sum_list_take_Suc:
  fixes xs :: "nat list"
  shows "i < length xs \<Longrightarrow> sum_list (take (Suc i) xs) = sum_list (take i xs) + xs ! i"
  by (simp add: take_Suc_conv_app_nth)


subsection \<open>The locator on a table of at most \<open>2 ^ 31\<close> entries\<close>

lemma unat_pred:
  fixes c :: u32
  assumes "0 < c"
  shows "unat (c - 1) = unat c - 1"
  using assms by (simp add: unat_minus_one word_neq_0_conv)

lemma find_chunk_ix_returns:
  assumes P: "0 < n_probes" "unat n_probes \<le> length xs" "unat n_probes \<le> 2 ^ 31"
  shows "\<exists>c. find_chunk_ix s n_probes xs =
           Some (Inr (c, if c = 0 then s else s - xs ! (unat c - 1)))
         \<and> c \<le> n_probes \<and> (c = 0 \<or> xs ! (unat c - 1) \<le> s) \<and> (c = n_probes \<or> s < xs ! unat c)"
proof -
  from find_chunk_loop_returns [OF P, of s]
  obtain c where c: "find_chunk_loop s xs 0 n_probes = Some (Inr c)" "c \<le> n_probes"
    "c = 0 \<or> xs ! (unat c - 1) \<le> s" "c = n_probes \<or> s < xs ! unat c"
    by blast
  have "find_chunk_ix s n_probes xs = Some (Inr (c, if c = 0 then s else s - xs ! (unat c - 1)))"
  proof (cases "c = 0")
    case True
    then show ?thesis by (simp add: find_chunk_ix_def c(1))
  next
    case False
    then have pos: "0 < c" by (simp add: word_neq_0_conv)
    have "unat c \<le> unat n_probes" using c(2) by (simp add: word_le_nat_alt)
    moreover have "0 < unat c" using pos by (simp add: word_less_nat_alt)
    ultimately have "unat c - 1 < length xs" using P(2) by linarith
    then show ?thesis
      using False pos by (simp add: find_chunk_ix_def c(1) array_read_def unat_pred)
  qed
  then show ?thesis using c by blast
qed

text \<open>
  Claim C1, as amended. Let the first \<open>n_probes\<close> entries of the table hold the inclusive
  prefix sums of the sizes of the probed partitions, let the probe list have at most
  \<open>2 ^ 31\<close> entries, and let the flat offset \<open>sample_ix\<close> be less than the total number
  of probed samples. Then \<open>find_chunk_ix\<close> returns, with the chunk index \<open>c\<close> the least
  index whose entry exceeds \<open>sample_ix\<close>; the offset is rewritten to
  \<open>sample_ix - table[c - 1]\<close> (to \<open>sample_ix\<close> when \<open>c = 0\<close>), which is less than the size
  of the \<open>c\<close>-th probed partition; and the sizes before \<open>c\<close> plus the local offset give
  \<open>sample_ix\<close> back.
\<close>

theorem find_chunk_ix_locates:
  assumes tbl: "holds_prefix_sums (take (unat n_probes) chunk_indices) sizes"
    and len: "unat n_probes = length sizes"
    and bound: "length sizes \<le> 2 ^ 31"
    and valid: "unat sample_ix < sum_list sizes"
  shows "\<exists>c local. find_chunk_ix sample_ix n_probes chunk_indices = Some (Inr (c, local))
           \<and> unat c < length sizes
           \<and> sample_ix < chunk_indices ! unat c
           \<and> (\<forall>j < unat c. chunk_indices ! j \<le> sample_ix)
           \<and> local = (if c = 0 then sample_ix else sample_ix - chunk_indices ! (unat c - 1))
           \<and> unat local < sizes ! unat c
           \<and> sum_list (take (unat c) sizes) + unat local = unat sample_ix"
proof -
  let ?P = "length sizes" and ?T = "take (unat n_probes) chunk_indices"
  have lenT: "length ?T = ?P" by (rule holds_prefix_sums_nth(1) [OF tbl])
  then have lenC: "?P \<le> length chunk_indices" using len by simp
  have nthT: "?T ! i = chunk_indices ! i" if "i < ?P" for i using that len by simp
  have entry: "unat (chunk_indices ! i) = sum_list (take (Suc i) sizes)" if "i < ?P" for i
    using holds_prefix_sums_nth(2) [OF tbl that] nthT [OF that] by simp
  have mono: "chunk_indices ! i \<le> chunk_indices ! j" if "i \<le> j" "j < ?P" for i j
    using holds_prefix_sums_mono [OF tbl that] nthT that by simp
  have "?P \<noteq> 0" using valid by auto
  then have Ppos: "0 < n_probes" using len by (simp add: word_less_nat_alt)
  from find_chunk_ix_returns [OF Ppos, of chunk_indices sample_ix] lenC len bound
  obtain c where c: "find_chunk_ix sample_ix n_probes chunk_indices =
           Some (Inr (c, if c = 0 then sample_ix else sample_ix - chunk_indices ! (unat c - 1)))"
    "c \<le> n_probes" "c = 0 \<or> chunk_indices ! (unat c - 1) \<le> sample_ix"
    "c = n_probes \<or> sample_ix < chunk_indices ! unat c"
    by auto
  define local where "local = (if c = 0 then sample_ix else sample_ix - chunk_indices ! (unat c - 1))"
  have cP: "unat c \<le> ?P" using c(2) len by (simp add: word_le_nat_alt)
  have total: "unat (chunk_indices ! (?P - 1)) = sum_list sizes"
    using entry [of "?P - 1"] \<open>?P \<noteq> 0\<close> by simp
  have c_ne: "c \<noteq> n_probes"
  proof
    assume e: "c = n_probes"
    then have "c \<noteq> 0" using Ppos by auto
    then have "chunk_indices ! (unat c - 1) \<le> sample_ix" using c(3) by simp
    then have "sum_list sizes \<le> unat sample_ix" using total e len by (simp add: word_le_nat_alt)
    then show False using valid by simp
  qed
  then have c_lt: "unat c < ?P" using cP len by (metis le_neq_implies_less word_unat_eq_iff)
  have above: "sample_ix < chunk_indices ! unat c" using c(4) c_ne by simp
  have below: "chunk_indices ! j \<le> sample_ix" if "j < unat c" for j
  proof -
    have "c \<noteq> 0" using that by auto
    then have "chunk_indices ! (unat c - 1) \<le> sample_ix" using c(3) by simp
    moreover have "chunk_indices ! j \<le> chunk_indices ! (unat c - 1)"
      using that c_lt by (intro mono) auto
    ultimately show ?thesis by simp
  qed
  have split: "sum_list (take (Suc (unat c)) sizes) = sum_list (take (unat c) sizes) + sizes ! unat c"
    using c_lt by (rule sum_list_take_Suc)
  have hi: "unat sample_ix < sum_list (take (unat c) sizes) + sizes ! unat c"
    using above entry [OF c_lt] split by (simp add: word_less_nat_alt)
  have rt: "sum_list (take (unat c) sizes) + unat local = unat sample_ix"
  proof (cases "c = 0")
    case True
    then show ?thesis by (simp add: local_def)
  next
    case False
    then have pos: "0 < unat c" by (simp add: unat_gt_0)
    have le: "chunk_indices ! (unat c - 1) \<le> sample_ix" using c(3) False by simp
    have "unat local = unat sample_ix - unat (chunk_indices ! (unat c - 1))"
      using False le by (simp add: local_def unat_sub)
    moreover have "unat (chunk_indices ! (unat c - 1)) = sum_list (take (unat c) sizes)"
      using entry [of "unat c - 1"] pos c_lt by simp
    moreover have "unat (chunk_indices ! (unat c - 1)) \<le> unat sample_ix"
      using le by (simp add: word_le_nat_alt)
    ultimately show ?thesis by simp
  qed
  have "unat local < sizes ! unat c" using rt hi by linarith
  then show ?thesis using c(1) c_lt above below rt unfolding local_def by blast
qed


text \<open>
  Claim C9, as amended. For \<open>1 \<le> n_probes \<le> 2 ^ 31\<close> and a table of exactly \<open>n_probes\<close>
  entries, whatever they are, the loop of \<open>find_chunk_ix\<close> ends and no read leaves the
  table: the call returns a chunk index at most \<open>n_probes\<close>. With \<open>n_probes = 0\<close> the body
  of the do-while runs once and reads entry 0 of an empty table.
\<close>

theorem find_chunk_ix_safe:
  assumes "1 \<le> unat n_probes" and "unat n_probes \<le> 2 ^ 31"
    and "length chunk_indices = unat n_probes"
  shows "(\<exists>c local. find_chunk_ix sample_ix n_probes chunk_indices = Some (Inr (c, local))
            \<and> c \<le> n_probes)
         \<and> find_chunk_ix sample_ix 0 [] = Some (Inl OutOfBounds)"
proof -
  have Ppos: "0 < n_probes" using assms(1) by (simp add: word_less_nat_alt)
  from find_chunk_ix_returns [OF Ppos, of chunk_indices sample_ix] assms
  have "\<exists>c local. find_chunk_ix sample_ix n_probes chunk_indices = Some (Inr (c, local))
            \<and> c \<le> n_probes" by auto
  moreover have "find_chunk_ix sample_ix 0 [] = Some (Inl OutOfBounds)"
    by (simp add: find_chunk_ix_def find_chunk_loop.simps array_read_def)
  ultimately show ?thesis by blast
qed

text \<open>The three theorems at the table \<open>[3, 8, 10]\<close> of the sizes \<open>[3, 5, 2]\<close>.\<close>

theorem find_chunk_ix_locates_witness:
  "holds_prefix_sums (take (unat (3::u32)) [3, 8, 10]) [3, 5, 2]
   \<and> (\<exists>c local. find_chunk_ix 4 3 [3, 8, 10] = Some (Inr (c, local))
         \<and> sum_list (take (unat c) [3, 5, 2]) + unat local = unat (4::u32))"
proof -
  have h: "holds_prefix_sums (take (unat (3::u32)) [3, 8, 10]) [3, 5, 2]"
    by (simp add: holds_prefix_sums_def)
  from find_chunk_ix_locates [OF h, of 4] show ?thesis using h by auto
qed


theorem find_chunk_ix_safe_witness:
  "\<exists>c local. find_chunk_ix 4 3 [3, 8, 10] = Some (Inr (c, local)) \<and> c \<le> 3"
  using find_chunk_ix_safe [of 3 "[3, 8, 10]" 4] by simp

subsection \<open>Probe lists of more than \<open>2 ^ 31\<close> entries\<close>

text \<open>
  With \<open>n_probes = 0xAAAAAAAA\<close> and entries 0 and \<open>0x55555555\<close> of the table at most
  \<open>sample_ix\<close>, the sum \<open>ix_min + ix_max\<close> wraps around: \<open>ix_min\<close> goes from 0 to
  \<open>0x55555556\<close>, then to 1, then to \<open>0x55555556\<close> again, and the loop never ends. Claims
  C1, C4 and C9 as stated do not bound the length of the probe list.
\<close>

lemma prefix_sums_zeros: "prefix_sums acc (replicate n 0 @ [x]) = replicate n acc @ [acc + x]"
  by (induction n) auto

theorem find_chunk_ix_locates_counterexample:
  "holds_prefix_sums (take (unat (0xAAAAAAAA::u32)) (replicate 2863311529 0 @ [1]))
      (replicate 2863311529 0 @ [1])
   \<and> unat (0xAAAAAAAA::u32) = length (replicate 2863311529 (0::nat) @ [1])
   \<and> unat (0::u32) < sum_list (replicate 2863311529 0 @ [1])
   \<and> find_chunk_ix 0 0xAAAAAAAA (replicate 2863311529 0 @ [1]) = None"
proof -
  have "map unat (replicate 2863311529 (0::u32) @ [1]) = prefix_sums 0 (replicate 2863311529 0 @ [1])"
    by (simp add: prefix_sums_zeros)
  then have "holds_prefix_sums (take (unat (0xAAAAAAAA::u32)) (replicate 2863311529 0 @ [1]))
      (replicate 2863311529 0 @ [1])"
    by (simp add: holds_prefix_sums_def)
  moreover have "find_chunk_loop 0 (replicate 2863311529 0 @ [1]) 0 0xAAAAAAAA = None"
    by (rule find_chunk_loop_diverges) (simp_all add: nth_append)
  ultimately show ?thesis by (simp add: find_chunk_ix_def)
qed


theorem find_chunk_ix_safe_counterexample:
  "1 \<le> unat (0xAAAAAAAA::u32) \<and> length (replicate 2863311530 (7::u32)) = unat (0xAAAAAAAA::u32)
   \<and> find_chunk_ix 7 0xAAAAAAAA (replicate 2863311530 7) = None"
  by (simp add: find_chunk_ix_def find_chunk_loop_diverges)


section \<open>The Result Resolver\<close>

lemma find_chunk_ix_le:
  assumes "0 < n_probes" "find_chunk_ix s n_probes xs = Some (Inr (c, l))"
  shows "c \<le> n_probes"
proof -
  from assms(2) obtain y where y: "find_chunk_loop s xs 0 n_probes = Some y"
    by (cases "find_chunk_loop s xs 0 n_probes") (auto simp: find_chunk_ix_def)
  with assms(2) have "y = Inr c"
    by (cases y) (auto simp: find_chunk_ix_def split: if_splits sum.splits)
  with find_chunk_loop_le [OF y] assms(1) show ?thesis by blast
qed








subsection \<open>The thread of an output slot\<close>





text \<open>
  Each bound of the amended claim is needed. With no probes the locator reads the first
  entry of an empty row. With \<open>0xAAAAAAAA\<close> probes the midpoint of the locator wraps and the
  kernel does not return. With two probes, the thread of query \<open>2 ^ 31\<close> finds its row at
  \<open>2 * 2 ^ 31 = 0\<close>, the row of query 0: there the sample index 0 is not found and the
  out-of-bounds record is written, whereas in the query's own row, from entry \<open>2 ^ 32\<close> on,
  the sample lies in chunk 0. With two results per query, the thread of query \<open>2 ^ 31\<close> and
  rank 0 reads and writes slot \<open>2 * 2 ^ 31 = 0\<close> instead of slot \<open>2 ^ 32\<close>: it resolves the
  sample index 5 of slot 0, which is not found, whereas its own slot holds the sample
  index 0.
\<close>

theorem postprocess_neighbors_kernel_slot_counterexample:
  "postprocess_neighbors_kernel True 256 [0 :: u64] [5] [[100]] [] [] 1 0 1 0 0
     = Some (Inl OutOfBounds)
   \<and> postprocess_neighbors_kernel True 256 [0 :: u64] [7] [[100]]
       (replicate 2863311530 0) (replicate 2863311530 7) 1 0xAAAAAAAA 1 0 0 = None
   \<and> postprocess_neighbors_kernel True 256 (replicate 2147483649 (0 :: u64))
       (replicate 2147483649 0) [[100]] (replicate 4294967298 0)
       ([0, 0] @ replicate 4294967296 1) 0x80000001 2 1 0 0x800000
     = Some (Inr ((replicate 2147483649 0)[2147483648 := 0x7FFFFFFFFFFFFFFF]))
   \<and> find_chunk_ix (replicate 2147483649 0 ! 2147483648) 2
       (drop (2147483648 * 2) ([0, 0] @ replicate 4294967296 1)) = Some (Inr (0, 0))
   \<and> postprocess_neighbors_kernel True 256 (replicate 4294967298 (0 :: u64))
       (5 # replicate 4294967297 0) [[100]] (replicate 2147483649 0)
       (replicate 2147483649 1) 0x80000001 1 2 0 0x1000000
     = Some (Inr ((replicate 4294967298 0)[0 := 0x7FFFFFFFFFFFFFFF]))
   \<and> (5 # replicate 4294967297 (0 :: u32)) ! (2147483648 * 2 + 0) = 0"
proof -
  have a: "postprocess_neighbors_kernel True 256 [0 :: u64] [5] [[100]] [] [] 1 0 1 0 0
         = Some (Inl OutOfBounds)"
    by (simp add: postprocess_neighbors_kernel_def Let_def array_read_def find_chunk_ix_def
          find_chunk_loop.simps)
  have "find_chunk_ix 7 0xAAAAAAAA (replicate 2863311530 7) = None"
    by (simp add: find_chunk_ix_def find_chunk_loop_diverges)
  then have b: "postprocess_neighbors_kernel True 256 [0 :: u64] [7] [[100]]
           (replicate 2863311530 0) (replicate 2863311530 7) 1 0xAAAAAAAA 1 0 0 = None"
    by (simp add: postprocess_neighbors_kernel_def Let_def array_read_def)
  have l: "find_chunk_ix 0 2 ([0, 0] @ replicate 4294967296 1) = Some (Inr (2, 0))"
    by (simp add: find_chunk_ix_def find_chunk_loop.simps array_read_def)
  have c: "postprocess_neighbors_kernel True 256 (replicate 2147483649 (0 :: u64))
           (replicate 2147483649 0) [[100]] (replicate 4294967298 0)
           ([0, 0] @ replicate 4294967296 1) 0x80000001 2 1 0 0x800000
         = Some (Inr ((replicate 2147483649 0)[2147483648 := 0x7FFFFFFFFFFFFFFF]))"
    using l
    by (simp add: postprocess_neighbors_kernel_def Let_def array_read_def array_write_def
          kOutOfBoundsRecord_def numeric_limits_max_def mask_eq_exp_minus_1)
  have c': "find_chunk_ix (replicate 2147483649 0 ! 2147483648) 2
             (drop (2147483648 * 2) ([0, 0] @ replicate 4294967296 1)) = Some (Inr (0, 0))"
    by (simp add: find_chunk_ix_def find_chunk_loop.simps array_read_def)
  have m: "find_chunk_ix 5 1 (replicate (Suc 0) 1) = Some (Inr (1, 4))"
    by (simp add: find_chunk_ix_def find_chunk_loop.simps array_read_def)
  have d: "postprocess_neighbors_kernel True 256 (replicate 4294967298 (0 :: u64))
           (5 # replicate 4294967297 0) [[100]] (replicate 2147483649 0)
           (replicate 2147483649 1) 0x80000001 1 2 0 0x1000000
         = Some (Inr ((replicate 4294967298 0)[0 := 0x7FFFFFFFFFFFFFFF]))"
    using m
    by (simp add: postprocess_neighbors_kernel_def Let_def array_read_def array_write_def
          kOutOfBoundsRecord_def numeric_limits_max_def mask_eq_exp_minus_1)
  have d': "(5 # replicate 4294967297 (0 :: u32)) ! (2147483648 * 2 + 0) = 0"
    by simp
  from a b c c' d d' show ?thesis by (intro conjI)
qed


section \<open>The Distance Postprocessor and the radius scan\<close>

lemma unaryOp_in_range:
  "len \<le> length inp \<Longrightarrow> len \<le> length out \<Longrightarrow>
     unaryOp out inp len op = Inr (map op (take len inp) @ drop len out)"
  by (simp add: unaryOp_def)

text \<open>
  Claim C7. On arrays that hold the \<open>n_queries * topk\<close> scores, \<open>postprocess_distances\<close>
  maps every raw score to \<open>raw * (s * s)\<close> for the two squared-Euclidean metrics, to
  \<open>sqrt raw * s\<close> for the two Euclidean metrics and to \<open>raw * (- s * s)\<close> for the inner
  product, \<open>s\<close> being the scaling factor, in whatever arithmetic the score type has. Over
  the real numbers: scale 2 and raw score 9 give 36 for squared Euclidean, scale 1 and raw
  score 16 give 4 for Euclidean, scale 1 and raw score 5 give \<open>- 5\<close> for the inner product
  (all three are exact in binary floating point as well).
\<close>

theorem postprocess_distances_transform:
  fixes out :: "'f::{times,uminus} list" and s :: 'f
  assumes "unat n_queries * unat topk \<le> length inp"
    and "unat n_queries * unat topk \<le> length out"
  shows "(metric = L2Expanded \<or> metric = L2Unexpanded \<longrightarrow>
            postprocess_distances cast_op sqrt_op out inp metric n_queries topk s
              = Inr (map (\<lambda>raw. cast_op raw * (s * s)) (take (unat n_queries * unat topk) inp)
                       @ drop (unat n_queries * unat topk) out))
       \<and> (metric = L2SqrtExpanded \<or> metric = L2SqrtUnexpanded \<longrightarrow>
            postprocess_distances cast_op sqrt_op out inp metric n_queries topk s
              = Inr (map (\<lambda>raw. sqrt_op (cast_op raw) * s) (take (unat n_queries * unat topk) inp)
                       @ drop (unat n_queries * unat topk) out))
       \<and> (metric = InnerProduct \<longrightarrow>
            postprocess_distances cast_op sqrt_op out inp metric n_queries topk s
              = Inr (map (\<lambda>raw. cast_op raw * (- s * s)) (take (unat n_queries * unat topk) inp)
                       @ drop (unat n_queries * unat topk) out))
       \<and> postprocess_distances id sqrt [0] [9] L2Expanded 1 1 (2::real) = Inr [36]
       \<and> postprocess_distances id sqrt [0] [16] L2SqrtExpanded 1 1 (1::real) = Inr [4]
       \<and> postprocess_distances id sqrt [0] [5] InnerProduct 1 1 (1::real) = Inr [- 5]"
proof -
  have "sqrt 16 = sqrt (4\<^sup>2)" by simp
  then have sq: "sqrt 16 = 4" by (simp only: real_sqrt_abs)
  show ?thesis
    using assms
    by (auto simp: postprocess_distances_def Let_def compose_op_def [abs_def]
          mul_const_op_def [abs_def] unaryOp_def sq)
qed

theorem postprocess_distances_transform_witness:
  "postprocess_distances id sqrt [0, 0, 7] [9, 1] L2Unexpanded 2 1 (2::real) = Inr [36, 4, 7]
   \<and> postprocess_distances id sqrt [0, 0, 7] [9, 1] L2SqrtUnexpanded 2 1 (2::real) = Inr [6, 2, 7]
   \<and> postprocess_distances id sqrt [0, 0, 7] [9, 1] InnerProduct 2 1 (2::real) = Inr [- 36, - 4, 7]"
proof -
  have "sqrt 9 = sqrt (3\<^sup>2)" by simp
  then have sq: "sqrt 9 = 3" by (simp only: real_sqrt_abs)
  have a: "unat (2::u32) * unat (1::u32) \<le> length [9, 1 :: real]"
    and b: "unat (2::u32) * unat (1::u32) \<le> length [0, 0, 7 :: real]" by simp_all
  show ?thesis
    using postprocess_distances_transform [OF a b, of L2Unexpanded id sqrt 2]
      postprocess_distances_transform [OF a b, of L2SqrtUnexpanded id sqrt 2]
      postprocess_distances_transform [OF a b, of InnerProduct id sqrt 2]
    by (simp add: sq)
qed

text \<open>
  Claim C8. For every metric other than the five that the switch names,
  \<open>postprocess_distances\<close> fails with the logic error ``Unexpected metric.'' whatever the
  other arguments are: no transform is applied in its place and there is no output array.
\<close>

theorem postprocess_distances_unsupported:
  assumes "metric \<notin> {L2Expanded, L2Unexpanded, L2SqrtExpanded, L2SqrtUnexpanded, InnerProduct}"
  shows "postprocess_distances cast_op sqrt_op out inp metric n_queries topk scaling_factor
           = Inl (LogicError ''Unexpected metric.'')
         \<and> (\<forall>out'. postprocess_distances cast_op sqrt_op out inp metric n_queries topk scaling_factor
                      \<noteq> Inr out')"
  using assms by (cases metric) (simp_all add: postprocess_distances_def)

theorem postprocess_distances_unsupported_witness:
  "postprocess_distances id sqrt [0] [9] (OtherMetric 2) 1 1 (2::real)
     = Inl (LogicError ''Unexpected metric.'')"
  using postprocess_distances_unsupported [of "OtherMetric 2" id sqrt "[0]" "[9]" 1 1 "2::real"]
  by simp

subsection \<open>Radius scan\<close>

lemma scan_members_length:
  "length (fold (\<lambda>x adj. if P x \<and> x < length adj then adj[x := True] else adj) xs adj) = length adj"
  by (induction xs arbitrary: adj) auto

lemma scan_members_nth:
  "r < length adj \<Longrightarrow>
     fold (\<lambda>x adj. if P x \<and> x < length adj then adj[x := True] else adj) xs adj ! r
       \<longleftrightarrow> adj ! r \<or> (r \<in> set xs \<and> P r)"
proof (induction xs arbitrary: adj)
  case Nil
  then show ?case by simp
next
  case (Cons x xs)
  then show ?case by (auto simp: nth_list_update)
qed

lemma scan_partitions:
  "length (fold (\<lambda>p adj. fold (\<lambda>x adj. if P x \<and> x < length adj then adj[x := True] else adj)
                          (members p) adj) ps adj) = length adj
   \<and> (r < length adj \<longrightarrow>
        (fold (\<lambda>p adj. fold (\<lambda>x adj. if P x \<and> x < length adj then adj[x := True] else adj)
                          (members p) adj) ps adj ! r
          \<longleftrightarrow> adj ! r \<or> (\<exists>p \<in> set ps. r \<in> set (members p) \<and> P r)))"
proof (induction ps arbitrary: adj)
  case Nil
  then show ?case by simp
next
  case (Cons p ps)
  show ?case
    using Cons.IH [of "fold (\<lambda>x adj. if P x \<and> x < length adj then adj[x := True] else adj)
                          (members p) adj"]
    by (auto simp: scan_members_length scan_members_nth)
qed

text \<open>
  Claim C6, on the model of \<open>rbc_eps_pass\<close> written after the specification. The scan
  visits every partition of the probe list and every member of it, without pruning: the
  neighbours emitted are exactly the members of the probed partitions whose distance to the
  query is at most \<open>eps\<close>, in probe order; the degree is their number; and the dense
  adjacency row is true exactly at those members.
\<close>

theorem rbc_eps_pass_complete:
  "set (fst (rbc_eps_pass_sparse members dfunc probe_list query eps))
     = {x \<in> (\<Union>p \<in> set probe_list. set (members p)). dfunc query x \<le> eps}
   \<and> snd (rbc_eps_pass_sparse members dfunc probe_list query eps)
     = length (fst (rbc_eps_pass_sparse members dfunc probe_list query eps))
   \<and> fst (rbc_eps_pass_sparse members dfunc probe_list query eps)
     = concat (map (\<lambda>p. filter (\<lambda>x. dfunc query x \<le> eps) (members p)) probe_list)
   \<and> length (rbc_eps_pass_dense members dfunc probe_list query eps n_rows) = n_rows
   \<and> (\<forall>r < n_rows. rbc_eps_pass_dense members dfunc probe_list query eps n_rows ! r
         \<longleftrightarrow> r \<in> {x \<in> (\<Union>p \<in> set probe_list. set (members p)). dfunc query x \<le> eps})"
proof -
  have "set (fst (rbc_eps_pass_sparse members dfunc probe_list query eps))
     = {x \<in> (\<Union>p \<in> set probe_list. set (members p)). dfunc query x \<le> eps}"
    by (auto simp: rbc_eps_pass_sparse_def Let_def)
  moreover have "length (rbc_eps_pass_dense members dfunc probe_list query eps n_rows) = n_rows"
    unfolding rbc_eps_pass_dense_def
    using scan_partitions [of "\<lambda>x. dfunc query x \<le> eps" members probe_list "replicate n_rows False"]
    by simp
  moreover have "\<forall>r < n_rows. rbc_eps_pass_dense members dfunc probe_list query eps n_rows ! r
         \<longleftrightarrow> r \<in> {x \<in> (\<Union>p \<in> set probe_list. set (members p)). dfunc query x \<le> eps}"
  proof (intro allI impI)
    fix r assume "r < n_rows"
    then show "rbc_eps_pass_dense members dfunc probe_list query eps n_rows ! r
         \<longleftrightarrow> r \<in> {x \<in> (\<Union>p \<in> set probe_list. set (members p)). dfunc query x \<le> eps}"
      unfolding rbc_eps_pass_dense_def
      using scan_partitions [of "\<lambda>x. dfunc query x \<le> eps" members probe_list
          "replicate n_rows False" r]
      by auto
  qed
  ultimately show ?thesis by (simp add: rbc_eps_pass_sparse_def Let_def)
qed

theorem rbc_eps_pass_complete_witness:
  "set (fst (rbc_eps_pass_sparse (\<lambda>p::nat. [2 * p, 2 * p + 1]) (\<lambda>q x. if x < q then q - x else x - q)
         [0, 2] (3::nat) (2::nat))) = {1, 4, 5}
   \<and> rbc_eps_pass_dense (\<lambda>p::nat. [2 * p, 2 * p + 1]) (\<lambda>q x. if x < q then q - x else x - q)
         [0, 2] (3::nat) (2::nat) 6 ! 4"
proof -
  have "(4::nat) < 6" by simp
  with rbc_eps_pass_complete [of "\<lambda>p::nat. [2 * p, 2 * p + 1]"
      "\<lambda>q x. if x < q then q - x else x - q" "[0, 2]" "3::nat" "2::nat" 6]
  show ?thesis by auto
qed


section \<open>Unravelling a linear index\<close>

lemma scast_nonneg:
  fixes w :: "'i::len word"
  assumes "0 \<le> sint w"
  shows "(scast w :: 'b::len word) = ucast w"
proof -
  have "sint w < 2 ^ (LENGTH('i) - 1)" by (rule sint_lt)
  also have "(2::int) ^ (LENGTH('i) - 1) \<le> 2 ^ LENGTH('i)" by (rule power_increasing) simp_all
  finally have "sint w < 2 ^ LENGTH('i)" .
  with assms have "take_bit LENGTH('i) (sint w) = sint w"
    by (rule take_bit_int_eq_self)
  then have "uint w = sint w" by (simp add: uint_sint)
  then show ?thesis by (metis scast_eq ucast_eq)
qed

subsection \<open>The test for a power of two\<close>

lemma nat_pow2_test:
  fixes n :: nat
  shows "0 < n \<Longrightarrow> n AND (n - 1) = 0 \<Longrightarrow> \<exists>k. n = 2 ^ k"
proof (induction n rule: less_induct)
  case (less n)
  show ?case
  proof (cases "even n")
    case True
    then obtain m where m: "n = 2 * m" by (auto elim: evenE)
    with less.prems have mpos: "0 < m" by simp
    have "n - 1 = 2 * (m - 1) + 1" using m mpos by simp
    then have "n AND (n - 1) = 2 * (m AND (m - 1))"
      using m by (subst and_nat_rec) simp
    with less.prems have "m AND (m - 1) = 0" by simp
    moreover have "m < n" using m mpos by simp
    ultimately obtain k where "m = 2 ^ k" using less.IH mpos by blast
    then have "n = 2 ^ Suc k" using m by simp
    then show ?thesis by blast
  next
    case False
    then obtain m where m: "n = 2 * m + 1" by (auto elim: oddE)
    then have "n AND (n - 1) = 2 * m"
      by (subst and_nat_rec) simp
    with less.prems have "m = 0" by simp
    then have "n = 2 ^ 0" using m by simp
    then show ?thesis by blast
  qed
qed

lemma word_pow2_test:
  fixes s :: "'a::len word"
  assumes "s \<noteq> 0" "s AND (s - 1) = 0"
  shows "\<exists>k < LENGTH('a). s = 2 ^ k"
proof -
  have pos: "0 < unat s" using assms(1) by (simp add: unat_gt_0)
  have "unat (s - 1) = unat s - 1" using assms(1) by (simp add: unat_minus_one)
  then have "unat s AND (unat s - 1) = unat (s AND (s - 1))"
    by (simp add: unsigned_and_eq)
  then have "unat s AND (unat s - 1) = 0" using assms(2) by simp
  from nat_pow2_test [OF pos this] obtain k where k: "unat s = 2 ^ k" by blast
  have "unat s < 2 ^ LENGTH('a)" by (rule unsigned_less)
  then have kl: "k < LENGTH('a)" using k by simp
  have "s = of_nat (unat s)" by simp
  also have "\<dots> = 2 ^ k" by (simp only: k) simp
  finally show ?thesis using kl by blast
qed

lemma popc_mask:
  assumes "k \<le> LENGTH('a)"
  shows "popc (2 ^ k - 1 :: 'a::len word) = k"
proof -
  have "{i. i < length [0..<LENGTH('a)] \<and> bit (mask k :: 'a word) ([0..<LENGTH('a)] ! i)} = {..<k}"
    using assms by (auto simp: bit_mask_iff)
  then have "length (filter (bit (mask k :: 'a word)) [0..<LENGTH('a)]) = k"
    by (simp only: length_filter_conv_card) simp
  then show ?thesis by (simp add: popc_def mask_eq_exp_minus_1)
qed

text \<open>
  One step of the loop of \<open>unravel_index_impl\<close>: whenever the extent is not 0 as a value of
  the index type, the mask-and-shift path and the division path both leave the quotient in
  \<open>idx\<close> and put the remainder in \<open>index\<close>.
\<close>

lemma unravel_loop_step:
  fixes idx :: "'a::len word"
  assumes "(ucast extent :: 'a word) \<noteq> 0"
  shows "unravel_loop idx (extent # extents) index
           = unravel_loop (idx div ucast extent) extents (ucast (idx mod ucast extent) # index)"
proof (cases "(ucast extent :: 'a word) AND (ucast extent - 1) = 0")
  case False
  then show ?thesis by (simp add: Let_def minus_div_mult_eq_mod)
next
  case True
  from word_pow2_test [OF assms True] obtain k where k: "k < LENGTH('a)"
    "(ucast extent :: 'a word) = 2 ^ k" by blast
  have p: "popc ((ucast extent :: 'a word) - 1) = k" using k by (simp add: popc_mask)
  have "idx AND (2 ^ k - 1) = idx mod 2 ^ k"
    by (metis mask_eq_exp_minus_1 take_bit_eq_mask take_bit_eq_mod)
  moreover have "drop_bit k idx = idx div 2 ^ k" by (simp add: drop_bit_eq_div)
  ultimately show ?thesis using True k p by (simp add: Let_def)
qed

lemma unravel_loop_div:
  fixes idx :: "'a::len word"
  assumes "\<forall>e \<in> set extents. (ucast e :: 'a word) \<noteq> 0"
  shows "unravel_loop idx extents index = Inr (unravel_div idx extents index)"
  using assms
proof (induction extents arbitrary: idx index)
  case Nil
  then show ?case by simp
next
  case (Cons e es)
  then have "(ucast e :: 'a word) \<noteq> 0" by simp
  from unravel_loop_step [OF this] Cons show ?case
    by (simp add: Let_def minus_div_mult_eq_mod)
qed


subsection \<open>Coordinates and their row-major offset\<close>

lemma ravel_snoc:
  "length cs = length es \<Longrightarrow> ravel (cs @ [c]) (es @ [e]) = ravel cs es * e + c"
proof (induction cs es rule: ravel.induct)
  case 1
  then show ?case by simp
next
  case (2 c' cs e' es)
  then show ?case by (simp add: algebra_simps)
qed simp_all

lemma unat_ucast_up:
  fixes w :: "'a::len word"
  assumes "LENGTH('a) \<le> LENGTH('b)"
  shows "unat (ucast w :: 'b::len word) = unat w"
proof -
  have "unat w < 2 ^ LENGTH('a)" by (rule unsigned_less)
  also have "(2::nat) ^ LENGTH('a) \<le> 2 ^ LENGTH('b)" using assms by (intro power_increasing) simp_all
  finally show ?thesis by (simp add: unsigned_ucast_eq take_bit_nat_eq_self)
qed

lemma unat_ucast_fits:
  fixes e :: "'b::len word"
  assumes "unat e < 2 ^ LENGTH('a)"
  shows "unat (ucast e :: 'a::len word) = unat e"
  using assms by (simp add: unsigned_ucast_eq take_bit_nat_eq_self)

lemma unravel_div_correct:
  fixes idx :: "'a::len word"
  assumes "LENGTH('a) \<le> 64"
    and "\<forall>e \<in> set extents. e \<noteq> 0 \<and> unat e < 2 ^ LENGTH('a)"
  shows "\<exists>idx' cs. unravel_div idx extents index = (idx', cs @ index)
           \<and> unat idx' = unat idx div prod_list (map unat extents)
           \<and> length cs = length extents
           \<and> (\<forall>d < length extents. cs ! d < rev extents ! d)
           \<and> ravel (map unat cs) (map unat (rev extents))
               = unat idx mod prod_list (map unat extents)"
  using assms(2)
proof (induction extents arbitrary: idx index)
  case Nil
  then show ?case by simp
next
  case (Cons e es)
  let ?s = "ucast e :: 'a word" and ?n = "unat e" and ?P = "prod_list (map unat es)"
  have fit: "unat ?s = ?n" using Cons.prems by (intro unat_ucast_fits) simp
  have npos: "0 < ?n" using Cons.prems by (simp add: unat_gt_0)
  define c :: u64 where "c = ucast (idx - idx div ?s * ?s)"
  have "idx - idx div ?s * ?s = idx mod ?s" by (rule minus_div_mult_eq_mod)
  then have uc: "unat c = unat idx mod ?n"
    using assms(1) by (simp add: c_def unat_ucast_up unat_mod fit)
  have ud: "unat (idx div ?s) = unat idx div ?n" by (simp add: unat_div fit)
  from Cons.IH [of "idx div ?s" "c # index"] Cons.prems
  obtain idx' cs where r: "unravel_div (idx div ?s) es (c # index) = (idx', cs @ c # index)"
    "unat idx' = unat (idx div ?s) div ?P" "length cs = length es"
    "\<forall>d < length es. cs ! d < rev es ! d"
    "ravel (map unat cs) (map unat (rev es)) = unat (idx div ?s) mod ?P"
    by auto
  have 1: "unravel_div idx (e # es) index = (idx', (cs @ [c]) @ index)"
    using r(1) by (simp add: Let_def c_def)
  have 2: "unat idx' = unat idx div prod_list (map unat (e # es))"
    using r(2) ud by (simp add: div_mult2_eq)
  have 3: "length (cs @ [c]) = length (e # es)" using r(3) by simp
  have cle: "c < e" using uc npos by (simp add: word_less_nat_alt)
  have 4: "\<forall>d < length (e # es). (cs @ [c]) ! d < rev (e # es) ! d"
  proof (intro allI impI)
    fix d assume "d < length (e # es)"
    then consider "d < length es" | "d = length es" by fastforce
    then show "(cs @ [c]) ! d < rev (e # es) ! d"
    proof cases
      case 1
      then show ?thesis using r(3) r(4) by (simp add: nth_append)
    next
      case 2
      then show ?thesis using r(3) cle by (simp add: nth_append)
    qed
  qed
  have "ravel (map unat (cs @ [c])) (map unat (rev (e # es)))
          = ravel (map unat cs) (map unat (rev es)) * ?n + unat c"
    using r(3) by (simp add: ravel_snoc)
  also have "\<dots> = ?n * (unat idx div ?n mod ?P) + unat idx mod ?n"
    using r(5) ud uc by (simp add: mult.commute)
  also have "\<dots> = unat idx mod (?n * ?P)" by (simp add: mod_mult2_eq)
  finally have 5: "ravel (map unat (cs @ [c])) (map unat (rev (e # es)))
          = unat idx mod prod_list (map unat (e # es))" by simp
  from 1 2 3 4 5 show ?case by blast
qed

lemma unravel_index_impl_correct:
  fixes idx :: "'a::len word"
  assumes "LENGTH('a) \<le> 64" and "shape \<noteq> []"
    and "\<forall>e \<in> set (tl shape). e \<noteq> 0 \<and> unat e < 2 ^ LENGTH('a)"
  shows "\<exists>coords. unravel_index_impl idx shape = Inr coords
           \<and> length coords = length shape
           \<and> (\<forall>d. 1 \<le> d \<and> d < length shape \<longrightarrow> coords ! d < shape ! d)
           \<and> ravel (map unat coords) (map unat shape) = unat idx"
proof -
  from assms(2) obtain e0 rest where shape: "shape = e0 # rest" by (cases shape) auto
  have ext: "\<forall>e \<in> set (rev rest). e \<noteq> 0 \<and> unat e < 2 ^ LENGTH('a)"
    using assms(3) shape by simp
  then have nz: "\<forall>e \<in> set (rev rest). (ucast e :: 'a word) \<noteq> 0"
    by (metis unat_ucast_fits unat_eq_zero)
  from unravel_div_correct [OF assms(1) ext, of idx "[]"]
  obtain idx' cs where r: "unravel_div idx (rev rest) [] = (idx', cs)"
    "unat idx' = unat idx div prod_list (map unat (rev rest))" "length cs = length rest"
    "\<forall>d < length rest. cs ! d < rest ! d"
    "ravel (map unat cs) (map unat rest) = unat idx mod prod_list (map unat (rev rest))"
    by auto
  have 1: "unravel_index_impl idx shape = Inr (ucast idx' # cs)"
    by (simp add: unravel_index_impl_def shape unravel_loop_div [OF nz] r(1))
  have 2: "length (ucast idx' # cs) = length shape" using r(3) shape by simp
  have 3: "\<forall>d. 1 \<le> d \<and> d < length shape \<longrightarrow> (ucast idx' # cs :: u64 list) ! d < shape ! d"
  proof (intro allI impI)
    fix d assume d: "1 \<le> d \<and> d < length shape"
    then obtain d' where "d = Suc d'" by (cases d) auto
    then show "(ucast idx' # cs :: u64 list) ! d < shape ! d" using d r(4) shape by simp
  qed
  have "unat (ucast idx' :: u64) = unat idx'" using assms(1) by (intro unat_ucast_up) simp
  then have 4: "ravel (map unat (ucast idx' # cs :: u64 list)) (map unat shape) = unat idx"
    using r(2) r(5) shape by (simp add: rev_map [symmetric])
  from 1 2 3 4 show ?thesis by blast
qed


lemma prod_list_pos_nonzero:
  fixes xs :: "nat list"
  shows "0 < prod_list xs \<Longrightarrow> \<forall>x \<in> set xs. x \<noteq> 0"
  by (induction xs) auto

text \<open>
  Where \<open>unravel_index\<close> is right. Let the index be non-negative and less than the product
  of the extents of a shape of rank at least 1, and let the extents of the dimensions
  \<open>1, 2, \<dots>\<close> fit in 32 bits whenever the index does. Then the coordinates returned
  are below the extents in every dimension from 1 on, and their row-major offset is the
  index. On any extents that are not 0 in the index type, the loop with the mask-and-shift
  path computes what the loop with divisions alone computes.
\<close>

theorem unravel_index_in_range:
  fixes idx :: "'i::len word"
  assumes width: "LENGTH('i) \<le> 32 \<or> LENGTH('i) = 64"
    and nonneg: "is_signed \<longrightarrow> 0 \<le> sint idx"
    and rank: "shape \<noteq> []"
    and inside: "unat idx < prod_list (map unat shape)"
    and narrow: "unat idx \<le> 0xFFFFFFFF \<longrightarrow> (\<forall>e \<in> set (tl shape). unat e < 2 ^ 32)"
  shows "(\<exists>coords. unravel_index is_signed idx shape = Inr coords
            \<and> length coords = length shape
            \<and> (\<forall>d. 1 \<le> d \<and> d < length shape \<longrightarrow> coords ! d < shape ! d)
            \<and> ravel (map unat coords) (map unat shape) = unat idx)
       \<and> (\<forall>(i :: u32) extents index. (\<forall>e \<in> set extents. (ucast e :: u32) \<noteq> 0) \<longrightarrow>
             unravel_loop i extents index = Inr (unravel_div i extents index))
       \<and> (\<forall>(i :: u64) extents index. (\<forall>e \<in> set extents. (ucast e :: u64) \<noteq> 0) \<longrightarrow>
             unravel_loop i extents index = Inr (unravel_div i extents index))"
proof -
  have "\<forall>x \<in> set (map unat shape). x \<noteq> 0"
    using inside by (intro prod_list_pos_nonzero) simp
  then have "\<forall>e \<in> set shape. e \<noteq> 0" by (auto simp: unat_eq_zero)
  then have nz: "\<forall>e \<in> set (tl shape). e \<noteq> 0" using rank by (cases shape) auto
  have c64: "(if is_signed then scast idx else ucast idx :: u64) = ucast idx"
    using nonneg by (simp add: scast_nonneg)
  have c32: "(if is_signed then scast idx else ucast idx :: u32) = ucast idx"
    using nonneg by (simp add: scast_nonneg)
  have u64: "unat (ucast idx :: u64) = unat idx"
    using width by (intro unat_ucast_up) auto
  have main: "\<exists>coords. unravel_index is_signed idx shape = Inr coords
            \<and> length coords = length shape
            \<and> (\<forall>d. 1 \<le> d \<and> d < length shape \<longrightarrow> coords ! d < shape ! d)
            \<and> ravel (map unat coords) (map unat shape) = unat idx"
  proof (cases "LENGTH('i) = 64 \<and> (ucast idx :: u64) > 0xFFFFFFFF")
    case True
    have "unat e < 2 ^ LENGTH(64)" for e :: u64 by (rule unsigned_less)
    then have ext: "\<forall>e \<in> set (tl shape). e \<noteq> 0 \<and> unat e < 2 ^ LENGTH(64)"
      using nz by blast
    have l: "LENGTH(64) \<le> 64" by simp
    have eq: "unravel_index is_signed idx shape = unravel_index_impl (ucast idx :: u64) shape"
      unfolding unravel_index_def Let_def c32 c64 by (rule if_P [OF True])
    from unravel_index_impl_correct [OF l rank ext, of "ucast idx"]
    show ?thesis unfolding eq u64 .
  next
    case False
    have small: "unat idx \<le> 0xFFFFFFFF"
    proof (cases "LENGTH('i) = 64")
      case True
      with False have "(ucast idx :: u64) \<le> 0xFFFFFFFF" by simp
      then show ?thesis using u64 by (simp add: word_le_nat_alt)
    next
      case False
      with width have w: "LENGTH('i) \<le> 32" by simp
      have "unat idx < 2 ^ LENGTH('i)" by (rule unsigned_less)
      also have "(2::nat) ^ LENGTH('i) \<le> 2 ^ 32" using w by (intro power_increasing) simp_all
      finally show ?thesis by simp
    qed
    then have "unat idx < 2 ^ LENGTH(32)" by simp
    then have u32: "unat (ucast idx :: u32) = unat idx"
      by (rule unat_ucast_fits)
    have ext: "\<forall>e \<in> set (tl shape). e \<noteq> 0 \<and> unat e < 2 ^ LENGTH(32)"
      using nz narrow small by simp
    have l: "LENGTH(32) \<le> 64" by simp
    have eq: "unravel_index is_signed idx shape = unravel_index_impl (ucast idx :: u32) shape"
      unfolding unravel_index_def Let_def c32 c64 by (rule if_not_P [OF False])
    from unravel_index_impl_correct [OF l rank ext, of "ucast idx"]
    show ?thesis unfolding eq u32 .
  qed
  have a32: "\<forall>(i :: u32) extents index. (\<forall>e \<in> set extents. (ucast e :: u32) \<noteq> 0) \<longrightarrow>
             unravel_loop i extents index = Inr (unravel_div i extents index)"
    by (intro allI impI) (rule unravel_loop_div)
  have a64: "\<forall>(i :: u64) extents index. (\<forall>e \<in> set extents. (ucast e :: u64) \<noteq> 0) \<longrightarrow>
             unravel_loop i extents index = Inr (unravel_div i extents index)"
    by (intro allI impI) (rule unravel_loop_div)
  from main a32 a64 show ?thesis by (intro conjI)
qed

theorem unravel_index_in_range_example:
  "\<exists>coords. unravel_index False (13 :: u64) [3, 4, 2] = Inr coords
      \<and> length coords = 3 \<and> coords ! 1 < 4 \<and> coords ! 2 < 2
      \<and> ravel (map unat coords) [3, 4, 2] = 13"
proof -
  have w: "LENGTH(64) \<le> 32 \<or> LENGTH(64) = 64" by simp
  have n: "False \<longrightarrow> 0 \<le> sint (13 :: u64)" by simp
  have r: "[3, 4, 2 :: u64] \<noteq> []" by simp
  have i: "unat (13 :: u64) < prod_list (map unat [3, 4, 2 :: u64])" by simp
  have f: "unat (13 :: u64) \<le> 0xFFFFFFFF \<longrightarrow> (\<forall>e \<in> set (tl [3, 4, 2 :: u64]). unat e < 2 ^ 32)"
    by simp
  from unravel_index_in_range [OF w n r i f, THEN conjunct1]
  obtain coords where c: "unravel_index False (13 :: u64) [3, 4, 2] = Inr coords"
    "length coords = length [3, 4, 2 :: u64]"
    "\<forall>d. 1 \<le> d \<and> d < length [3, 4, 2 :: u64] \<longrightarrow> coords ! d < [3, 4, 2 :: u64] ! d"
    "ravel (map unat coords) (map unat [3, 4, 2 :: u64]) = unat (13 :: u64)"
    by blast
  from c(3) [rule_format, of 1] c(3) [rule_format, of 2]
  have "coords ! 1 < 4" "coords ! 2 < 2" by simp_all
  with c(1,2,4) show ?thesis by simp
qed

text \<open>
  Claim C10 fails on the code where an extent needs more than 32 bits and the index does
  not. For the shape \<open>(3, 2^32 + 5)\<close> and the index 7, which is less than the product of
  the extents, \<open>unravel_index\<close> takes the 32-bit path, cuts the extent to 5 and returns the
  coordinates \<open>(1, 2)\<close>, whose row-major offset is \<open>2^32 + 7\<close>; the coordinates of 7
  are \<open>(0, 7)\<close>.
\<close>

theorem unravel_index_narrow_extent:
  "unat (7 :: u64) < prod_list (map unat [3, 0x100000005 :: u64])
   \<and> unravel_index False (7 :: u64) [3, 0x100000005] = Inr [1, 2]
   \<and> ravel (map unat [1, 2 :: u64]) (map unat [3, 0x100000005 :: u64]) \<noteq> unat (7 :: u64)"
proof -
  have "unravel_index False (7 :: u64) [3, 0x100000005] = Inr [1, 2]"
    by code_simp
  moreover have "unat (7 :: u64) < prod_list (map unat [3, 0x100000005 :: u64])" by simp
  moreover have "ravel (map unat [1, 2 :: u64]) (map unat [3, 0x100000005 :: u64]) \<noteq> unat (7 :: u64)"
    by simp
  ultimately show ?thesis by blast
qed

section \<open>The Chunk Index Builder\<close>

subsection \<open>Rounding up to a multiple of the block size\<close>





subsection \<open>One iteration of the block\<close>












subsection \<open>The loop over the tiles\<close>







subsection \<open>The kernel on concrete queries\<close>







end
